theory Spec2Isabelle
  imports Complex_Main "HOL-Library.Multiset" "HOL-Library.Sublist"
    "HOL-Library.Product_Lexorder"
begin

section \<open>The reranker service of backend/reranker/server.py\<close>

text \<open>
  The file defines four pydantic models and one operation, \<^verbatim>\<open>rerank\<close>:
  \<^verbatim>\<open>
  def rerank(payload: RerankRequest):
      pairs = [(payload.query, doc.text) for doc in payload.documents]
      scores = model.predict(pairs)
      results = [
          {"id": doc.id, "score": float(score)}
          for doc, score in zip(payload.documents, scores)
      ]
      results.sort(key=lambda item: item["score"], reverse=True)
      return {"results": results}
  \<close>
  The cross-encoder \<^verbatim>\<open>model\<close> is a process-wide object created outside the
  operation; it is taken as a parameter here.
\<close>

subsection \<open>Floats\<close>

text \<open>
  The operation copies and compares floats and never computes with them, so a float is
  modelled by what its comparisons depend on: it is a finite number, one of the two
  infinities, or not-a-number. The two zeros of a float compare equal and are one value
  here.
\<close>

datatype pyfloat = NegInf | Finite real | PosInf | NaN

text \<open>
  The place of a float in the order of the floats. Not-a-number has no place in that
  order; it is given a value of its own, so that floats with the same place are equal.
\<close>

fun float_rank :: "pyfloat \<Rightarrow> int \<times> real" where
  "float_rank NegInf = (- 1, 0)"
| "float_rank (Finite r) = (0, r)"
| "float_rank PosInf = (1, 0)"
| "float_rank NaN = (2, 0)"

text \<open>
  The comparisons \<^verbatim>\<open><\<close> and \<^verbatim>\<open>>=\<close> of Python on floats: both are false as soon as
  one side is not-a-number.
\<close>

definition py_lt :: "pyfloat \<Rightarrow> pyfloat \<Rightarrow> bool" where
  "py_lt a b = (a \<noteq> NaN \<and> b \<noteq> NaN \<and> float_rank a < float_rank b)"

definition py_ge :: "pyfloat \<Rightarrow> pyfloat \<Rightarrow> bool" where
  "py_ge a b = (a \<noteq> NaN \<and> b \<noteq> NaN \<and> float_rank b \<le> float_rank a)"

subsection \<open>Data model\<close>

text \<open>
  The fields \<^verbatim>\<open>id\<close>, \<^verbatim>\<open>text\<close> and \<^verbatim>\<open>score\<close> occur in two classes and
  \<^verbatim>\<open>id\<close> is a constant of HOL, so the fields carry the prefix of their class. The
  values of the metadata dictionary (\<^verbatim>\<open>Any\<close>) are a type parameter.
\<close>

record 'v Document =
  doc_id :: string
  doc_text :: string
  doc_metadata :: "(string \<rightharpoonup> 'v) option"
  doc_score :: "pyfloat option"

record 'v RerankRequest =
  query :: string
  documents :: "'v Document list"

record RerankResult =
  res_id :: string
  res_score :: pyfloat

record RerankResponse =
  results :: "RerankResult list"

subsection \<open>The scoring capability\<close>

text \<open>
  The source defines no exception class. The only statement of \<^verbatim>\<open>rerank\<close> that can
  raise is the call \<^verbatim>\<open>model.predict(pairs)\<close>, and no \<^verbatim>\<open>try\<close> surrounds it: an
  exception raised there leaves \<^verbatim>\<open>rerank\<close> as it is. \<open>ScoringError c\<close> stands for
  such an exception, \<open>c\<close> being the exception object.
\<close>

datatype 'c error = ScoringError 'c

text \<open>
  \<^verbatim>\<open>model.predict\<close> is a method of a mutable object: it receives the list of
  (query, text) pairs and the state of the model, and either raises or returns a list of
  scores, together with the state it leaves the model in. The conversion
  \<^verbatim>\<open>float(score)\<close> of a score to a Python float keeps its value.
\<close>

type_synonym ('c, 'm) predict =
  "(string \<times> string) list \<Rightarrow> 'm \<Rightarrow> ('c error + pyfloat list) \<times> 'm"

subsection \<open>Sorting\<close>

text \<open>
  \<^verbatim>\<open>list.sort(key=..., reverse=True)\<close> compares the keys with \<^verbatim>\<open><\<close> only. It
  reverses the list, sorts it in ascending order and reverses the outcome. The ascending
  sort is that of CPython 3.11 (listobject.c).

  \<^bold>\<open>Fewer than 64 entries.\<close> The sort finds the run the list starts with
  (\<^verbatim>\<open>count_run\<close>): a strictly descending one, which it reverses, or else one in
  which no entry is less than the entry before it. Every later entry is then inserted
  into the run at the place a binary search gives (\<^verbatim>\<open>binarysort\<close>).
\<close>

fun run_length :: "bool \<Rightarrow> pyfloat \<Rightarrow> pyfloat list \<Rightarrow> nat" where
  "run_length descending prev [] = 0"
| "run_length descending prev (k # ks) =
     (if py_lt k prev = descending then Suc (run_length descending k ks) else 0)"

definition count_run :: "pyfloat list \<Rightarrow> nat \<times> bool" where
  "count_run keys =
     (case keys of
        k0 # k1 # ks \<Rightarrow>
          (let descending = py_lt k1 k0 in (2 + run_length descending k1 ks, descending))
      | _ \<Rightarrow> (length keys, False))"

function bisect :: "('a \<Rightarrow> pyfloat) \<Rightarrow> 'a \<Rightarrow> 'a list \<Rightarrow> nat \<Rightarrow> nat \<Rightarrow> nat" where
  "bisect key pivot xs l r =
     (if l < r then
        (let p = l + (r - l) div 2 in
         if py_lt (key pivot) (key (xs ! p)) then bisect key pivot xs l p
         else bisect key pivot xs (Suc p) r)
      else l)"
  by pat_completeness auto
termination
  by (relation "measure (\<lambda>(key, pivot, xs, l, r). r - l)") auto

declare bisect.simps [simp del]

definition binary_insert :: "('a \<Rightarrow> pyfloat) \<Rightarrow> 'a list \<Rightarrow> 'a \<Rightarrow> 'a list" where
  "binary_insert key run pivot =
     (let l = bisect key pivot run 0 (length run) in take l run @ pivot # drop l run)"

definition binarysort :: "('a \<Rightarrow> pyfloat) \<Rightarrow> 'a list \<Rightarrow> 'a list \<Rightarrow> 'a list" where
  "binarysort key run rest = foldl (binary_insert key) run rest"

definition short_sort :: "('a \<Rightarrow> pyfloat) \<Rightarrow> 'a list \<Rightarrow> 'a list" where
  "short_sort key xs =
     (if length xs < 2 then xs
      else
        (let (n, descending) = count_run (map key xs);
             run = (if descending then rev (take n xs) else take n xs)
         in binarysort key run (drop n xs)))"

text \<open>
  \<^bold>\<open>64 entries or more.\<close> The sort cuts the list into runs and merges them; this
  part of CPython is not modelled. When no key is not-a-number, \<^verbatim>\<open><\<close> is a total
  order of the keys and \<^verbatim>\<open>list.sort\<close> is the stable sort: the outcome is in
  ascending order of the keys and entries with equal keys keep their order. There is one
  such arrangement, the one \<^const>\<open>sort_key\<close> computes. When a key is not-a-number,
  what the sort does is a parameter: a function that gives, for the list of keys, the
  positions of the entries in the order in which the sort leaves them. The sort never
  loses or duplicates an entry, so a value of the parameter that is no arrangement of the
  positions stands for no sort, and the list is then left as it is.
\<close>

type_synonym arrangement = "pyfloat list \<Rightarrow> nat list"

definition arranged :: "arrangement \<Rightarrow> ('a \<Rightarrow> pyfloat) \<Rightarrow> 'a list \<Rightarrow> 'a list" where
  "arranged order key xs =
     (let ps = order (map key xs) in
      if mset ps = mset [0..<length xs] then map (nth xs) ps else xs)"

definition sort_reverse :: "arrangement \<Rightarrow> ('a \<Rightarrow> pyfloat) \<Rightarrow> 'a list \<Rightarrow> 'a list" where
  "sort_reverse order key xs =
     (if length xs < 64 then rev (short_sort key (rev xs))
      else if NaN \<notin> set (map key xs) then rev (sort_key (float_rank \<circ> key) (rev xs))
      else arranged order key xs)"

subsection \<open>The operation\<close>

definition rerank ::
  "arrangement \<Rightarrow> ('c, 'm) predict \<Rightarrow> 'v RerankRequest \<Rightarrow> 'm
     \<Rightarrow> ('c error + RerankResponse) \<times> 'm" where
  "rerank order predict payload model =
     (let pairs = map (\<lambda>doc. (query payload, doc_text doc)) (documents payload) in
      case predict pairs model of
        (Inl e, model') \<Rightarrow> (Inl e, model')
      | (Inr scores, model') \<Rightarrow>
          (let results =
                 map (\<lambda>(doc, score). \<lparr>res_id = doc_id doc, res_score = score\<rparr>)
                   (zip (documents payload) scores);
               results = sort_reverse order res_score results
           in (Inr \<lparr>results = results\<rparr>, model')))"

subsection \<open>Names for the intermediate values of the operation\<close>

text \<open>
  The list \<^verbatim>\<open>pairs\<close> passed to the model, and the entry built from one element of
  \<^verbatim>\<open>zip(payload.documents, scores)\<close>.
\<close>

abbreviation pairs_of :: "'v RerankRequest \<Rightarrow> (string \<times> string) list" where
  "pairs_of payload \<equiv> map (\<lambda>doc. (query payload, doc_text doc)) (documents payload)"

abbreviation entry :: "'v Document \<times> pyfloat \<Rightarrow> RerankResult" where
  "entry \<equiv> \<lambda>(doc, score). \<lparr>res_id = doc_id doc, res_score = score\<rparr>"

subsection \<open>Observing the calls of the scoring capability\<close>

text \<open>
  \<open>logged predict\<close> behaves as \<open>predict\<close> and appends the argument of every call to
  a log kept beside the state of the model. Running \<^const>\<open>rerank\<close> on it shows how
  often, and with which arguments, the operation calls \<^verbatim>\<open>model.predict\<close>.
\<close>

definition logged ::
  "('c, 'm) predict \<Rightarrow> ('c, 'm \<times> (string \<times> string) list list) predict" where
  "logged predict pairs s =
     (case predict pairs (fst s) of (r, model') \<Rightarrow> (r, (model', snd s @ [pairs])))"

subsection \<open>Stubs and sample data for concrete runs\<close>

text \<open>
  An arrangement for the runs below. They sort fewer than 64 entries, where the
  arrangement is not consulted.
\<close>

definition keep_order :: arrangement where
  "keep_order keys = [0..<length keys]"

text \<open>A model that answers every call with the same list of scores.\<close>

definition fixed_scores :: "pyfloat list \<Rightarrow> (unit, unit) predict" where
  "fixed_scores scores pairs model = (Inr scores, model)"

text \<open>A model that raises on every call.\<close>

definition failing :: "string \<Rightarrow> (string, unit) predict" where
  "failing cause pairs model = (Inl (ScoringError cause), model)"

text \<open>
  A model that scores a pair by the length of its text and counts its calls in its
  state: the scores depend on the pairs only.
\<close>

definition length_scorer :: "(unit, nat) predict" where
  "length_scorer pairs model =
     (Inr (map (\<lambda>(q, t). Finite (real (length t))) pairs), Suc model)"

text \<open>Documents and requests.\<close>

definition doc_a :: "unit Document" where
  "doc_a = \<lparr>doc_id = ''a'', doc_text = ''weather forecast for tomorrow'',
            doc_metadata = None, doc_score = None\<rparr>"

definition doc_b :: "unit Document" where
  "doc_b = \<lparr>doc_id = ''b'', doc_text = ''Q3 budget review meeting notes'',
            doc_metadata = None, doc_score = None\<rparr>"

definition doc_c :: "unit Document" where
  "doc_c = \<lparr>doc_id = ''c'', doc_text = ''lunch'',
            doc_metadata = Some Map.empty, doc_score = Some (Finite 7)\<rparr>"

definition doc_d :: "unit Document" where
  "doc_d = \<lparr>doc_id = ''d'', doc_text = ''budget'', doc_metadata = None, doc_score = None\<rparr>"

definition doc_e :: "unit Document" where
  "doc_e = \<lparr>doc_id = ''e'', doc_text = ''agenda'', doc_metadata = None, doc_score = None\<rparr>"

definition doc_f :: "unit Document" where
  "doc_f = \<lparr>doc_id = ''f'', doc_text = ''minutes'', doc_metadata = None, doc_score = None\<rparr>"

definition doc_g :: "unit Document" where
  "doc_g = \<lparr>doc_id = ''g'', doc_text = ''notes'', doc_metadata = None, doc_score = None\<rparr>"

definition request_ab :: "unit RerankRequest" where
  "request_ab = \<lparr>query = ''budget meeting'', documents = [doc_a, doc_b]\<rparr>"

definition request_abc :: "unit RerankRequest" where
  "request_abc = \<lparr>query = ''budget meeting'', documents = [doc_a, doc_b, doc_c]\<rparr>"

definition request_abcdefg :: "unit RerankRequest" where
  "request_abcdefg =
     \<lparr>query = ''budget meeting'',
      documents = [doc_a, doc_b, doc_c, doc_d, doc_e, doc_f, doc_g]\<rparr>"

definition request_empty :: "unit RerankRequest" where
  "request_empty = \<lparr>query = ''budget meeting'', documents = []\<rparr>"

text \<open>
  The first document again, now with a metadata dictionary and a score of an earlier
  retrieval stage.
\<close>

definition doc_a_annotated :: "unit Document" where
  "doc_a_annotated = \<lparr>doc_id = ''a'', doc_text = ''weather forecast for tomorrow'',
            doc_metadata = Some [''source'' \<mapsto> ()], doc_score = Some (Finite 12)\<rparr>"

definition request_ab_annotated :: "unit RerankRequest" where
  "request_ab_annotated = \<lparr>query = ''budget meeting'', documents = [doc_a_annotated, doc_b]\<rparr>"

section \<open>Auxiliary facts\<close>

subsection \<open>Floats\<close>

lemma float_rank_eq_iff: "float_rank a = float_rank b \<longleftrightarrow> a = b"
  by (cases a; cases b) simp_all

lemma py_ge_rank:
  assumes "a \<noteq> NaN" and "b \<noteq> NaN" and "float_rank b \<le> float_rank a"
  shows "py_ge a b"
  using assms by (simp add: py_ge_def)

lemma py_lt_rank:
  assumes "a \<noteq> NaN" and "b \<noteq> NaN"
  shows "py_lt a b \<longleftrightarrow> float_rank a < float_rank b"
  using assms by (simp add: py_lt_def)

subsection \<open>The sort rearranges its input\<close>

lemma binary_insert_mset: "mset (binary_insert key run pivot) = add_mset pivot (mset run)"
proof -
  have "mset (take l run @ pivot # drop l run) = add_mset pivot (mset (take l run @ drop l run))"
    for l
    by (simp only: mset_append mset.simps union_mset_add_mset_right)
  then show ?thesis
    by (simp add: binary_insert_def Let_def del: mset_append)
qed

lemma binarysort_mset: "mset (binarysort key run rest) = mset run + mset rest"
  unfolding binarysort_def
  by (induction rest arbitrary: run) (simp_all add: binary_insert_mset)

lemma short_sort_mset: "mset (short_sort key xs) = mset xs"
proof (cases "length xs < 2")
  case True
  then show ?thesis by (simp add: short_sort_def)
next
  case False
  obtain n descending where c: "count_run (map key xs) = (n, descending)"
    by (cases "count_run (map key xs)")
  have "mset (take n xs) + mset (drop n xs) = mset xs"
    by (simp only: mset_append [symmetric] append_take_drop_id)
  with False c show ?thesis
    by (simp add: short_sort_def binarysort_mset)
qed

lemma arranged_mset: "mset (arranged order key xs) = mset xs"
proof (cases "mset (order (map key xs)) = mset [0..<length xs]")
  case True
  have "mset (map (nth xs) (order (map key xs))) = image_mset (nth xs) (mset (order (map key xs)))"
    by simp
  also have "\<dots> = image_mset (nth xs) (mset [0..<length xs])"
    by (simp only: True)
  also have "\<dots> = mset (map (nth xs) [0..<length xs])"
    by simp
  also have "\<dots> = mset xs"
    by (simp only: map_nth)
  finally show ?thesis
    using True by (simp add: arranged_def)
next
  case False
  then show ?thesis by (simp add: arranged_def)
qed

lemma sort_reverse_mset: "mset (sort_reverse order key xs) = mset xs"
  by (simp add: sort_reverse_def short_sort_mset arranged_mset)

lemma sort_reverse_length: "length (sort_reverse order key xs) = length xs"
  using sort_reverse_mset [of order key xs] by (rule mset_eq_length)

lemma sort_reverse_set: "set (sort_reverse order key xs) = set xs"
  using sort_reverse_mset [of order key xs] by (rule mset_eq_setD)

subsection \<open>Steps of the binary search\<close>

lemma bisect_done: "\<not> l < r \<Longrightarrow> bisect key pivot xs l r = l"
  by (simp add: bisect.simps)

lemma bisect_left:
  "l < r \<Longrightarrow> py_lt (key pivot) (key (xs ! (l + (r - l) div 2)))
     \<Longrightarrow> bisect key pivot xs l r = bisect key pivot xs l (l + (r - l) div 2)"
  by (subst bisect.simps) (simp add: Let_def)

lemma bisect_right:
  "l < r \<Longrightarrow> \<not> py_lt (key pivot) (key (xs ! (l + (r - l) div 2)))
     \<Longrightarrow> bisect key pivot xs l r = bisect key pivot xs (Suc (l + (r - l) div 2)) r"
  by (subst bisect.simps) (simp add: Let_def)

lemma bisect_bounds:
  assumes "sorted (map (float_rank \<circ> key) run)"
    and "NaN \<notin> set (map key run)" and "key x \<noteq> NaN"
    and "l \<le> r" and "r \<le> length run"
    and "\<forall>i<l. float_rank (key (run ! i)) \<le> float_rank (key x)"
    and "\<forall>i. r \<le> i \<and> i < length run \<longrightarrow> float_rank (key x) < float_rank (key (run ! i))"
  shows "bisect key x run l r \<le> length run
         \<and> (\<forall>i<bisect key x run l r. float_rank (key (run ! i)) \<le> float_rank (key x))
         \<and> (\<forall>i. bisect key x run l r \<le> i \<and> i < length run
                \<longrightarrow> float_rank (key x) < float_rank (key (run ! i)))"
  using assms
proof (induction key x run l r rule: bisect.induct)
  case (1 key pivot xs l r)
  let ?f = "\<lambda>y. float_rank (key y)"
  let ?p = "l + (r - l) div 2"
  show ?case
  proof (cases "l < r")
    case False
    with "1.prems" have "l = r" by simp
    with "1.prems" False show ?thesis by (simp add: bisect_done)
  next
    case True
    then have p: "l \<le> ?p" "?p < r" by auto
    with "1.prems" have plen: "?p < length xs" by simp
    have srt: "?f (xs ! i) \<le> ?f (xs ! j)" if "i \<le> j" "j < length xs" for i j
      using "1.prems"(1) that by (simp add: sorted_iff_nth_mono)
    have nn: "key (xs ! ?p) \<noteq> NaN"
      using "1.prems"(2) plen by (metis length_map nth_map nth_mem)
    show ?thesis
    proof (cases "py_lt (key pivot) (key (xs ! ?p))")
      case lt: True
      then have less: "?f pivot < ?f (xs ! ?p)"
        using "1.prems"(3) nn by (simp add: py_lt_rank)
      have hi: "\<forall>i. ?p \<le> i \<and> i < length xs \<longrightarrow> ?f pivot < ?f (xs ! i)"
        using less srt by (meson less_le_trans)
      have "bisect key pivot xs l ?p \<le> length xs
        \<and> (\<forall>i<bisect key pivot xs l ?p. ?f (xs ! i) \<le> ?f pivot)
        \<and> (\<forall>i. bisect key pivot xs l ?p \<le> i \<and> i < length xs \<longrightarrow> ?f pivot < ?f (xs ! i))"
        using "1.IH"(1) [OF True refl lt "1.prems"(1,2,3) p(1) _ "1.prems"(6) hi] plen
        by simp
      then show ?thesis
        unfolding bisect_left [OF True lt] .
    next
      case ge: False
      then have le: "?f (xs ! ?p) \<le> ?f pivot"
        using "1.prems"(3) nn by (simp add: py_lt_rank)
      have lo: "\<forall>i<Suc ?p. ?f (xs ! i) \<le> ?f pivot"
        using le srt plen by (meson less_Suc_eq_le order_trans)
      have "bisect key pivot xs (Suc ?p) r \<le> length xs
        \<and> (\<forall>i<bisect key pivot xs (Suc ?p) r. ?f (xs ! i) \<le> ?f pivot)
        \<and> (\<forall>i. bisect key pivot xs (Suc ?p) r \<le> i \<and> i < length xs
               \<longrightarrow> ?f pivot < ?f (xs ! i))"
        using "1.IH"(2) [OF True refl ge "1.prems"(1,2,3) _ "1.prems"(5) lo "1.prems"(7)] p(2)
        by simp
      then show ?thesis
        unfolding bisect_right [OF True ge] .
    qed
  qed
qed

subsection \<open>Binary insertion into a sorted run\<close>

lemma binary_insert_place:
  assumes "sorted (map (float_rank \<circ> key) run)"
    and "NaN \<notin> set (map key run)" and "key x \<noteq> NaN"
  obtains b where "binary_insert key run x = take b run @ x # drop b run"
    and "\<forall>y\<in>set (take b run). float_rank (key y) \<le> float_rank (key x)"
    and "\<forall>y\<in>set (drop b run). float_rank (key x) < float_rank (key y)"
proof -
  let ?b = "bisect key x run 0 (length run)"
  have b: "?b \<le> length run
         \<and> (\<forall>i<?b. float_rank (key (run ! i)) \<le> float_rank (key x))
         \<and> (\<forall>i. ?b \<le> i \<and> i < length run \<longrightarrow> float_rank (key x) < float_rank (key (run ! i)))"
    using assms by (intro bisect_bounds) auto
  have lower: "\<forall>y\<in>set (take ?b run). float_rank (key y) \<le> float_rank (key x)"
  proof
    fix y assume "y \<in> set (take ?b run)"
    then obtain i where "i < length (take ?b run)" and "take ?b run ! i = y"
      by (auto simp: in_set_conv_nth)
    with b show "float_rank (key y) \<le> float_rank (key x)" by auto
  qed
  have upper: "\<forall>y\<in>set (drop ?b run). float_rank (key x) < float_rank (key y)"
  proof
    fix y assume "y \<in> set (drop ?b run)"
    then obtain i where i: "i < length (drop ?b run)" and y: "drop ?b run ! i = y"
      by (auto simp: in_set_conv_nth)
    from i have "?b + i < length run" by simp
    moreover from y b have "run ! (?b + i) = y" by simp
    ultimately show "float_rank (key x) < float_rank (key y)"
      using b by (metis le_add1)
  qed
  have "binary_insert key run x = take ?b run @ x # drop ?b run"
    by (simp add: binary_insert_def Let_def)
  with lower upper that show thesis by blast
qed

lemma binary_insert_sorted:
  assumes "sorted (map (float_rank \<circ> key) run)"
    and "NaN \<notin> set (map key run)" and "key x \<noteq> NaN"
  shows "sorted (map (float_rank \<circ> key) (binary_insert key run x))"
proof -
  from assms obtain b where eq: "binary_insert key run x = take b run @ x # drop b run"
    and lower: "\<forall>y\<in>set (take b run). float_rank (key y) \<le> float_rank (key x)"
    and upper: "\<forall>y\<in>set (drop b run). float_rank (key x) < float_rank (key y)"
    by (rule binary_insert_place)
  have t: "sorted (map (float_rank \<circ> key) (take b run))"
    using assms(1) by (simp add: take_map [symmetric] sorted_wrt_take)
  have d: "sorted (map (float_rank \<circ> key) (drop b run))"
    using assms(1) by (simp add: drop_map [symmetric] sorted_wrt_drop)
  show ?thesis
    unfolding eq using t d lower upper
    by (fastforce simp add: sorted_append)
qed

lemma binary_insert_filter:
  assumes "sorted (map (float_rank \<circ> key) run)"
    and "NaN \<notin> set (map key run)" and "key x \<noteq> NaN"
  shows "filter (\<lambda>y. key y = k) (binary_insert key run x) = filter (\<lambda>y. key y = k) (run @ [x])"
proof -
  from assms obtain b where eq: "binary_insert key run x = take b run @ x # drop b run"
    and upper: "\<forall>y\<in>set (drop b run). float_rank (key x) < float_rank (key y)"
    by (rule binary_insert_place)
  have split: "filter (\<lambda>y. key y = k) run
               = filter (\<lambda>y. key y = k) (take b run) @ filter (\<lambda>y. key y = k) (drop b run)"
    by (simp only: filter_append [symmetric] append_take_drop_id)
  show ?thesis
  proof (cases "key x = k")
    case True
    with upper have "\<forall>y\<in>set (drop b run). key y \<noteq> k" by auto
    then have "filter (\<lambda>y. key y = k) (drop b run) = []" by simp
    with True split show ?thesis by (simp add: eq)
  next
    case False
    with split show ?thesis by (simp add: eq)
  qed
qed

lemma binarysort_sorted_stable:
  assumes "sorted (map (float_rank \<circ> key) run)"
    and "NaN \<notin> set (map key run)" and "NaN \<notin> set (map key rest)"
  shows "sorted (map (float_rank \<circ> key) (binarysort key run rest))
         \<and> filter (\<lambda>y. key y = k) (binarysort key run rest) = filter (\<lambda>y. key y = k) (run @ rest)"
  using assms
proof (induction rest arbitrary: run)
  case Nil
  then show ?case by (simp add: binarysort_def)
next
  case (Cons x rest)
  from Cons.prems have x: "key x \<noteq> NaN" by auto
  have s: "sorted (map (float_rank \<circ> key) (binary_insert key run x))"
    using Cons.prems(1,2) x by (rule binary_insert_sorted)
  have "mset (binary_insert key run x) = add_mset x (mset run)"
    by (rule binary_insert_mset)
  then have "set (binary_insert key run x) = insert x (set run)"
    by (metis set_mset_add_mset_insert set_mset_mset)
  with Cons.prems(2) x have n: "NaN \<notin> set (map key (binary_insert key run x))"
    by auto
  from Cons.prems(3) have r: "NaN \<notin> set (map key rest)" by simp
  have step: "binarysort key run (x # rest) = binarysort key (binary_insert key run x) rest"
    by (simp add: binarysort_def)
  have f: "filter (\<lambda>y. key y = k) (binary_insert key run x) = filter (\<lambda>y. key y = k) (run @ [x])"
    using Cons.prems(1,2) x by (rule binary_insert_filter)
  from Cons.IH [OF s n r] f show ?case
    unfolding step by simp
qed

subsection \<open>The run a list starts with, and the sort of a short list\<close>

lemma run_length_le: "run_length descending prev ks \<le> length ks"
  by (induction ks arbitrary: prev) simp_all

lemma ascending_run:
  assumes "NaN \<notin> set (prev # ks)"
  shows "sorted (map float_rank (prev # take (run_length False prev ks) ks))"
  using assms
proof (induction ks arbitrary: prev)
  case Nil
  then show ?case by simp
next
  case (Cons k ks)
  show ?case
  proof (cases "py_lt k prev")
    case True
    then show ?thesis by simp
  next
    case False
    moreover from Cons.prems have "prev \<noteq> NaN" and "k \<noteq> NaN"
      by auto
    ultimately have "float_rank prev \<le> float_rank k"
      by (simp add: py_lt_rank)
    moreover from Cons.prems
    have "sorted (map float_rank (k # take (run_length False k ks) ks))"
      by (intro Cons.IH) simp
    ultimately show ?thesis
      using False by (auto intro: order_trans)
  qed
qed

lemma descending_run:
  assumes "NaN \<notin> set (prev # ks)"
  shows "sorted_wrt (\<lambda>a b. float_rank b < float_rank a)
           (prev # take (run_length True prev ks) ks)"
  using assms
proof (induction ks arbitrary: prev)
  case Nil
  then show ?case by simp
next
  case (Cons k ks)
  have tr: "transp (\<lambda>a b. float_rank b < float_rank a)"
    by (rule transpI) (rule less_trans)
  show ?case
  proof (cases "py_lt k prev")
    case False
    then show ?thesis by simp
  next
    case True
    moreover from Cons.prems have "prev \<noteq> NaN" and "k \<noteq> NaN"
      by auto
    ultimately have "float_rank k < float_rank prev"
      by (simp add: py_lt_rank)
    moreover from Cons.prems
    have "sorted_wrt (\<lambda>a b. float_rank b < float_rank a) (k # take (run_length True k ks) ks)"
      by (intro Cons.IH) simp
    ultimately show ?thesis
      using True by (auto intro: less_trans)
  qed
qed

lemma count_run_run:
  assumes "NaN \<notin> set ks" and "count_run ks = (n, descending)"
  shows "n \<le> length ks"
    and "\<not> descending \<Longrightarrow> sorted (map float_rank (take n ks))"
    and "descending \<Longrightarrow> sorted_wrt (\<lambda>a b. float_rank b < float_rank a) (take n ks)"
proof -
  show "n \<le> length ks"
    using assms(2) run_length_le
    by (auto simp add: count_run_def Let_def split: list.splits)
  show "sorted (map float_rank (take n ks))" if "\<not> descending"
  proof (cases ks)
    case Nil
    then show ?thesis by simp
  next
    case (Cons k0 ks')
    show ?thesis
    proof (cases ks')
      case Nil
      with Cons show ?thesis by (cases n) simp_all
    next
      case inner: (Cons k1 rest)
      from assms(2) that Cons inner
      have n: "n = 2 + run_length False k1 rest" and le: "\<not> py_lt k1 k0"
        by (auto simp add: count_run_def Let_def)
      from assms(1) Cons inner have "k0 \<noteq> NaN" and "k1 \<noteq> NaN"
        by auto
      with le have "float_rank k0 \<le> float_rank k1"
        by (simp add: py_lt_rank)
      moreover from assms(1) Cons inner
      have "sorted (map float_rank (k1 # take (run_length False k1 rest) rest))"
        by (intro ascending_run) simp
      ultimately show ?thesis
        using Cons inner n by (auto intro: order_trans)
    qed
  qed
  show "sorted_wrt (\<lambda>a b. float_rank b < float_rank a) (take n ks)" if "descending"
  proof (cases ks)
    case Nil
    then show ?thesis by simp
  next
    case (Cons k0 ks')
    have tr: "transp (\<lambda>a b. float_rank b < float_rank a)"
      by (rule transpI) (rule less_trans)
    show ?thesis
    proof (cases ks')
      case Nil
      with Cons show ?thesis by (cases n) simp_all
    next
      case inner: (Cons k1 rest)
      from assms(2) that Cons inner
      have n: "n = 2 + run_length True k1 rest" and lt: "py_lt k1 k0"
        by (auto simp add: count_run_def Let_def)
      from assms(1) Cons inner have "k0 \<noteq> NaN" and "k1 \<noteq> NaN"
        by auto
      with lt have "float_rank k1 < float_rank k0"
        by (simp add: py_lt_rank)
      moreover from assms(1) Cons inner
      have "sorted_wrt (\<lambda>a b. float_rank b < float_rank a)
              (k1 # take (run_length True k1 rest) rest)"
        by (intro descending_run) simp
      ultimately show ?thesis
        using Cons inner n by (auto intro: less_trans)
    qed
  qed
qed

lemma filter_distinct_key_rev:
  assumes "distinct (map key xs)"
  shows "filter (\<lambda>y. key y = k) (rev xs) = filter (\<lambda>y. key y = k) xs"
proof -
  have "length (filter (\<lambda>y. key y = k) xs) \<le> 1"
    using assms
  proof (induction xs)
    case Nil
    then show ?case by simp
  next
    case (Cons x xs)
    show ?case
    proof (cases "key x = k")
      case True
      have "key y \<noteq> k" if "y \<in> set xs" for y
      proof -
        from that have "key y \<in> set (map key xs)" by simp
        moreover from Cons.prems have "key x \<notin> set (map key xs)" by simp
        ultimately show ?thesis using True by metis
      qed
      then have "\<forall>y\<in>set xs. key y \<noteq> k" by blast
      then have "filter (\<lambda>y. key y = k) xs = []" by simp
      with True show ?thesis by simp
    next
      case False
      with Cons show ?thesis by simp
    qed
  qed
  then have "rev (filter (\<lambda>y. key y = k) xs) = filter (\<lambda>y. key y = k) xs"
    by (cases "filter (\<lambda>y. key y = k) xs") simp_all
  then show ?thesis by (simp add: rev_filter)
qed

lemma short_sort_total:
  assumes "NaN \<notin> set (map key xs)"
  shows "short_sort key xs = sort_key (float_rank \<circ> key) xs"
proof (rule sym, rule properties_for_sort_key)
  let ?f = "float_rank \<circ> key"
  show "mset (short_sort key xs) = mset xs"
    by (rule short_sort_mset)
  obtain n descending where c: "count_run (map key xs) = (n, descending)"
    by (cases "count_run (map key xs)")
  let ?run = "if descending then rev (take n xs) else take n xs"
  have eq: "short_sort key xs = binarysort key ?run (drop n xs)" if "\<not> length xs < 2"
    using that c by (simp add: short_sort_def)
  have keys_run: "map key (take n xs) = take n (map key xs)"
    by (simp add: take_map)
  have run_sorted: "sorted (map ?f ?run)"
  proof (cases descending)
    case False
    with count_run_run(2) [OF assms c] show ?thesis
      by (simp add: keys_run [symmetric])
  next
    case True
    with count_run_run(3) [OF assms c]
    have "sorted_wrt (\<lambda>a b. float_rank b < float_rank a) (map key (take n xs))"
      by (simp add: keys_run)
    then have "sorted_wrt (<) (rev (map ?f (take n xs)))"
      by (simp add: sorted_wrt_rev sorted_wrt_map)
    then have "sorted (rev (map ?f (take n xs)))"
      by (rule strict_sorted_imp_sorted)
    with True show ?thesis by (simp add: rev_map)
  qed
  have run_filter: "filter (\<lambda>y. key y = k) ?run = filter (\<lambda>y. key y = k) (take n xs)" for k
  proof (cases descending)
    case False
    then show ?thesis by simp
  next
    case True
    with count_run_run(3) [OF assms c]
    have "sorted_wrt (\<lambda>a b. float_rank b < float_rank a) (map key (take n xs))"
      by (simp add: keys_run)
    then have "sorted_wrt (<) (rev (map ?f (take n xs)))"
      by (simp add: sorted_wrt_rev sorted_wrt_map)
    then have "distinct (rev (map ?f (take n xs)))"
      by (simp only: strict_sorted_iff)
    then have "distinct (map key (take n xs))"
      by (simp add: distinct_map comp_def inj_on_def float_rank_eq_iff)
    with True show ?thesis by (simp add: filter_distinct_key_rev)
  qed
  have clean_run: "NaN \<notin> set (map key ?run)"
    using assms by (auto dest: in_set_takeD)
  have clean_rest: "NaN \<notin> set (map key (drop n xs))"
    using assms by (auto dest: in_set_dropD)
  note sorted_stable = binarysort_sorted_stable [OF run_sorted clean_run clean_rest]
  have short_xs: "sort_key ?f xs = xs" if "length xs < 2"
  proof (cases xs)
    case Nil
    then show ?thesis by simp
  next
    case (Cons x xs')
    with that have "xs' = []" by simp
    with Cons show ?thesis by simp
  qed
  show "sorted (map ?f (short_sort key xs))"
  proof (cases "length xs < 2")
    case True
    then have "short_sort key xs = xs" by (simp add: short_sort_def)
    moreover have "sorted (map ?f (sort_key ?f xs))" by simp
    ultimately show ?thesis using short_xs [OF True] by simp
  next
    case False
    from sorted_stable show ?thesis by (simp add: eq [OF False])
  qed
  show "filter (\<lambda>y. ?f k = ?f y) (short_sort key xs) = filter (\<lambda>y. ?f k = ?f y) xs" for k
  proof (cases "length xs < 2")
    case True
    then show ?thesis by (simp add: short_sort_def)
  next
    case False
    have same: "(\<lambda>y. ?f k = ?f y) = (\<lambda>y. key y = key k)"
      by (auto simp add: float_rank_eq_iff)
    have "filter (\<lambda>y. key y = key k) (short_sort key xs)
          = filter (\<lambda>y. key y = key k) (?run @ drop n xs)"
      using sorted_stable [of "key k"] by (simp only: eq [OF False])
    also have "\<dots> = filter (\<lambda>y. key y = key k) (take n xs @ drop n xs)"
      by (simp only: filter_append run_filter)
    finally show ?thesis
      by (simp only: same append_take_drop_id)
  qed
qed

subsection \<open>The sort of keys without not-a-number\<close>

text \<open>
  Below 64 entries too, the sort is the stable sort when no key is not-a-number: the
  algorithm for short lists computes what \<^const>\<open>sort_key\<close> computes.
\<close>

lemma sort_reverse_total:
  assumes "NaN \<notin> set (map key xs)"
  shows "sort_reverse order key xs = rev (sort_key (float_rank \<circ> key) (rev xs))"
proof -
  from assms have "NaN \<notin> set (map key (rev xs))" by simp
  then have "short_sort key (rev xs) = sort_key (float_rank \<circ> key) (rev xs)"
    by (rule short_sort_total)
  with assms show ?thesis by (simp add: sort_reverse_def)
qed

lemma sort_reverse_filter:
  assumes "NaN \<notin> set (map key xs)"
  shows "filter (\<lambda>y. key y = k) (sort_reverse order key xs) = filter (\<lambda>y. key y = k) xs"
proof -
  let ?P = "\<lambda>y. (float_rank \<circ> key) y = float_rank k"
  have same: "(\<lambda>y. key y = k) = ?P"
    by (simp add: float_rank_eq_iff)
  have "filter ?P (sort_reverse order key xs)
        = rev (filter ?P (sort_key (float_rank \<circ> key) (rev xs)))"
    by (simp only: sort_reverse_total [OF assms] rev_filter)
  also have "\<dots> = rev (filter ?P (rev xs))"
    by (simp only: sort_key_stable)
  also have "\<dots> = filter ?P xs"
    by (simp only: rev_filter rev_rev_ident)
  finally show ?thesis
    by (simp only: same)
qed

lemma sort_reverse_sorted:
  assumes "NaN \<notin> set (map key xs)"
  shows "sorted (rev (map (float_rank \<circ> key) (sort_reverse order key xs)))"
  by (simp add: sort_reverse_total [OF assms] rev_map)

subsection \<open>The two outcomes of the operation\<close>

lemma rerank_returns:
  assumes "predict (pairs_of req) m = (Inr scores, m')"
  shows "rerank order predict req m =
         (Inr \<lparr>results = sort_reverse order res_score (map entry (zip (documents req) scores))\<rparr>,
          m')"
  using assms by (simp add: rerank_def)

lemma rerank_raises:
  assumes "predict (pairs_of req) m = (Inl e, m')"
  shows "rerank order predict req m = (Inl e, m')"
  using assms by (simp add: rerank_def)

lemma rerank_success_cases:
  assumes "fst (rerank order predict req m) = Inr resp"
  obtains scores m' where "predict (pairs_of req) m = (Inr scores, m')"
    and "results resp = sort_reverse order res_score (map entry (zip (documents req) scores))"
proof (cases "predict (pairs_of req) m")
  case (Pair r m')
  show thesis
  proof (cases r)
    case (Inl e)
    with Pair assms show thesis by (simp add: rerank_raises)
  next
    case (Inr scores)
    with Pair assms that show thesis by (auto simp add: rerank_returns)
  qed
qed

lemma rerank_logged:
  "rerank order (logged predict) req (m, calls) =
     (fst (rerank order predict req m),
      (snd (rerank order predict req m), calls @ [pairs_of req]))"
  by (simp add: rerank_def logged_def split: prod.splits sum.splits)

subsection \<open>Lists, pairs of positions and entries\<close>

lemma subseq_pair_nth:
  assumes "i < j" and "j < length xs"
  shows "subseq [xs ! i, xs ! j] xs"
proof -
  from assms have i: "i < length xs" by simp
  have split: "xs = take i xs @ xs ! i # drop (Suc i) xs"
    using i by (rule id_take_nth_drop)
  have "xs ! j = drop (Suc i) xs ! (j - Suc i)"
    using assms by simp
  moreover have "j - Suc i < length (drop (Suc i) xs)"
    using assms by simp
  ultimately have "xs ! j \<in> set (drop (Suc i) xs)"
    by (metis nth_mem)
  then have "subseq [xs ! j] (drop (Suc i) xs)"
    by (simp add: subseq_singleton_left)
  then have "subseq [xs ! i, xs ! j] (xs ! i # drop (Suc i) xs)"
    by simp
  then have "subseq [xs ! i, xs ! j] (take i xs @ xs ! i # drop (Suc i) xs)"
    by (rule list_emb_append2)
  with split show ?thesis by simp
qed

lemma subseq_pair_filter:
  assumes "subseq [x, y] (filter P xs)"
  shows "subseq [x, y] xs"
  using assms subseq_filter_left [of P xs] by (rule subseq_order.trans)

lemma zip_truncated: "zip xs ys = zip (take (length ys) xs) (take (length xs) ys)"
proof -
  have "zip xs ys = take (min (length xs) (length ys)) (zip xs ys)" by simp
  also have "\<dots> = zip (take (min (length xs) (length ys)) xs) (take (min (length xs) (length ys)) ys)"
    by (rule take_zip)
  also have "\<dots> = zip (take (length ys) xs) (take (length xs) ys)"
    by (simp add: min_def)
  finally show ?thesis .
qed


lemma scores_of_entries: "map res_score (map entry (zip ds scores)) = take (length ds) scores"
proof -
  have "map res_score (map entry (zip ds scores)) = map snd (zip ds scores)"
    by (simp add: comp_def case_prod_unfold)
  also have "\<dots> = take (min (length ds) (length scores)) scores"
    by (rule map_snd_zip_take)
  also have "\<dots> = take (length ds) scores"
    by (simp add: min_def)
  finally show ?thesis .
qed

lemma entry_zip_ids:
  "map entry (zip ds scores)
   = map (\<lambda>(i, s). \<lparr>res_id = i, res_score = s\<rparr>) (zip (map doc_id ds) scores)"
  by (simp add: zip_map1 comp_def case_prod_unfold)

subsection \<open>The sample documents\<close>

lemmas sample_documents =
  doc_a_def doc_b_def doc_c_def doc_d_def doc_e_def doc_f_def doc_g_def doc_a_annotated_def

section \<open>Properties of the operation\<close>

subsection \<open>A score count that differs from the number of documents\<close>

text \<open>
  Claim C1, as the code has it. The operation never compares the number of scores with the
  number of documents: \<^verbatim>\<open>zip\<close> stops at the shorter of its two arguments. When the
  model returns a number of scores different from the number of documents, \<^verbatim>\<open>rerank\<close>
  does not fail. It returns as many results as the shorter of the two lists has elements,
  and they are, in some order, the first documents paired by position with the first
  scores; the surplus documents or scores are dropped.
\<close>

theorem rerank_score_count_mismatch:
  assumes "predict (pairs_of req) m = (Inr scores, m')"
    and "length scores \<noteq> length (documents req)"
  shows "\<exists>resp. fst (rerank order predict req m) = Inr resp
           \<and> length (results resp) = min (length (documents req)) (length scores)
           \<and> mset (results resp)
               = mset (map entry (zip (take (length scores) (documents req))
                                      (take (length (documents req)) scores)))"
proof -
  have "mset (sort_reverse order res_score (map entry (zip (documents req) scores)))
        = mset (map entry (zip (take (length scores) (documents req))
                                      (take (length (documents req)) scores)))"
    by (simp only: sort_reverse_mset zip_truncated [symmetric])
  then show ?thesis
    using assms(1) by (simp add: rerank_returns sort_reverse_length)
qed

text \<open>
  The theorem at a model that returns three scores for two documents: the third score is
  dropped.
\<close>

theorem rerank_score_count_mismatch_witness:
  "fixed_scores [Finite 4, Finite 9, Finite 6] (pairs_of request_ab) ()
     = (Inr [Finite 4, Finite 9, Finite 6], ())
   \<and> length [Finite 4, Finite 9, Finite 6] \<noteq> length (documents request_ab)
   \<and> fst (rerank keep_order (fixed_scores [Finite 4, Finite 9, Finite 6]) request_ab ())
       = Inr \<lparr>results = [\<lparr>res_id = ''b'', res_score = Finite 9\<rparr>,
                         \<lparr>res_id = ''a'', res_score = Finite 4\<rparr>]\<rparr>
   \<and> (\<exists>resp. fst (rerank keep_order (fixed_scores [Finite 4, Finite 9, Finite 6]) request_ab ())
                = Inr resp
           \<and> length (results resp)
               = min (length (documents request_ab)) (length [Finite 4, Finite 9, Finite 6])
           \<and> mset (results resp)
               = mset (map entry
                   (zip (take (length [Finite 4, Finite 9, Finite 6]) (documents request_ab))
                        (take (length (documents request_ab)) [Finite 4, Finite 9, Finite 6]))))"
proof -
  have p: "fixed_scores [Finite 4, Finite 9, Finite 6] (pairs_of request_ab) ()
     = (Inr [Finite 4, Finite 9, Finite 6], ())"
    by (simp add: fixed_scores_def)
  have n: "length [Finite 4, Finite 9, Finite 6] \<noteq> length (documents request_ab)"
    by (simp add: request_ab_def)
  have run: "fst (rerank keep_order (fixed_scores [Finite 4, Finite 9, Finite 6]) request_ab ())
       = Inr \<lparr>results = [\<lparr>res_id = ''b'', res_score = Finite 9\<rparr>,
                         \<lparr>res_id = ''a'', res_score = Finite 4\<rparr>]\<rparr>"
    by (simp add: rerank_def fixed_scores_def request_ab_def sample_documents sort_reverse_total)
  from rerank_score_count_mismatch
    [of "fixed_scores [Finite 4, Finite 9, Finite 6]" request_ab "()"
        "[Finite 4, Finite 9, Finite 6]" "()" keep_order, OF p n] p n run
  show ?thesis by blast
qed

text \<open>
  Claim C1 as it is stated fails: a model that returns one score for the two documents
  \<open>a\<close> and \<open>b\<close> makes \<^verbatim>\<open>rerank\<close> return a response, which holds the single
  result \<open>a\<close>, and not fail.
\<close>

theorem rerank_score_count_mismatch_counterexample:
  "length [Finite 5] \<noteq> length (pairs_of request_ab)
   \<and> fixed_scores [Finite 5] (pairs_of request_ab) () = (Inr [Finite 5], ())
   \<and> fst (rerank keep_order (fixed_scores [Finite 5]) request_ab ())
       = Inr \<lparr>results = [\<lparr>res_id = ''a'', res_score = Finite 5\<rparr>]\<rparr>
   \<and> \<not> isl (fst (rerank keep_order (fixed_scores [Finite 5]) request_ab ()))"
  by (simp add: rerank_def fixed_scores_def request_ab_def sample_documents sort_reverse_total)

subsection \<open>The empty list of documents\<close>

text \<open>
  Claim C2, as the code has it. The operation has no branch for an empty list of
  documents. On such a request it calls the model once, with the empty list of pairs. When
  that call returns, whatever scores it returns, the results are empty; when it raises,
  \<^verbatim>\<open>rerank\<close> fails with the same error.
\<close>

theorem rerank_empty_documents:
  assumes "documents req = []"
  shows "snd (snd (rerank order (logged predict) req (m, calls))) = calls @ [[]]
         \<and> (predict [] m = (Inr scores, m')
              \<longrightarrow> fst (rerank order (logged predict) req (m, calls)) = Inr \<lparr>results = []\<rparr>)
         \<and> (predict [] m = (Inl e, m')
              \<longrightarrow> fst (rerank order (logged predict) req (m, calls)) = Inl e)"
  using assms
  by (simp add: rerank_logged rerank_returns rerank_raises sort_reverse_total)

text \<open>
  The theorem on the empty request, at a model that returns two scores for the empty batch
  and at a model that raises.
\<close>

theorem rerank_empty_documents_witness:
  "documents request_empty = []
   \<and> snd (snd (rerank keep_order (logged (fixed_scores [Finite 8, Finite 1])) request_empty
                ((), []))) = [[]]
   \<and> fst (rerank keep_order (logged (fixed_scores [Finite 8, Finite 1])) request_empty ((), []))
       = Inr \<lparr>results = []\<rparr>
   \<and> fst (rerank keep_order (logged (failing ''empty batch'')) request_empty ((), []))
       = Inl (ScoringError ''empty batch'')"
proof -
  have d: "documents request_empty = []" by (simp add: request_empty_def)
  have "fixed_scores [Finite 8, Finite 1] [] () = (Inr [Finite 8, Finite 1], ())"
    by (simp add: fixed_scores_def)
  moreover have "failing ''empty batch'' [] () = (Inl (ScoringError ''empty batch''), ())"
    by (simp add: failing_def)
  ultimately show ?thesis
    using d
      rerank_empty_documents [OF d, of keep_order "fixed_scores [Finite 8, Finite 1]" "()" "[]"
        "[Finite 8, Finite 1]" "()"]
      rerank_empty_documents [OF d, of keep_order "failing ''empty batch''" "()" "[]" _ _
        "ScoringError ''empty batch''"]
    by simp
qed

text \<open>
  Claim C2 as it is stated fails: on the empty request the log of calls, empty before, holds
  one call afterwards, the one with the empty list of pairs.
\<close>

theorem rerank_empty_documents_counterexample:
  "documents request_empty = []
   \<and> snd (snd (rerank keep_order (logged (fixed_scores [])) request_empty ((), []))) = [[]]
   \<and> snd (snd (rerank keep_order (logged (fixed_scores [])) request_empty ((), []))) \<noteq> []"
  by (simp add: rerank_def logged_def fixed_scores_def request_empty_def sort_reverse_total)

subsection \<open>Descending order\<close>

text \<open>
  Claim C3, as the code has it. Whenever \<^verbatim>\<open>rerank\<close> returns a response none of whose
  scores is not-a-number, its results are in descending order of score: the score at
  every index \<open>i\<close> is greater than or equal to the score at index \<open>i + 1\<close>, in the
  sense of the comparison \<^verbatim>\<open>>=\<close> of floats.
\<close>

theorem rerank_sorted_descending:
  assumes "fst (rerank order predict req m) = Inr resp"
    and "NaN \<notin> set (map res_score (results resp))"
    and "Suc i < length (results resp)"
  shows "py_ge (res_score (results resp ! i)) (res_score (results resp ! Suc i))"
proof -
  from assms(1) obtain scores m' where
    res: "results resp = sort_reverse order res_score (map entry (zip (documents req) scores))"
    by (rule rerank_success_cases)
  let ?es = "map entry (zip (documents req) scores)"
  have "set (results resp) = set ?es"
    unfolding res by (rule sort_reverse_set)
  then have "set (map res_score ?es) = set (map res_score (results resp))"
    by (simp only: set_map)
  with assms(2) have clean: "NaN \<notin> set (map res_score ?es)"
    by (simp only: not_False_eq_True)
  have "sorted (rev (map (float_rank \<circ> res_score) (results resp)))"
    unfolding res using clean by (rule sort_reverse_sorted)
  then have "map (float_rank \<circ> res_score) (results resp) ! Suc i
             \<le> map (float_rank \<circ> res_score) (results resp) ! i"
    using assms(3) by (simp add: sorted_rev_iff_nth_Suc)
  with assms(3)
  have le: "float_rank (res_score (results resp ! Suc i)) \<le> float_rank (res_score (results resp ! i))"
    by simp
  have "res_score (results resp ! k) \<noteq> NaN" if "k < length (results resp)" for k
  proof
    assume "res_score (results resp ! k) = NaN"
    then have "NaN = map res_score (results resp) ! k"
      using that by simp
    then have "NaN \<in> set (map res_score (results resp))"
      using that by (metis length_map nth_mem)
    with assms(2) show False ..
  qed
  from this [of i] this [of "Suc i"] assms(3)
  have "res_score (results resp ! i) \<noteq> NaN" and "res_score (results resp ! Suc i) \<noteq> NaN"
    by simp_all
  then show ?thesis
    using le by (rule py_ge_rank)
qed

text \<open>The theorem at three documents scored 1, 3 and 2, and the first two results.\<close>

theorem rerank_sorted_descending_witness:
  "fst (rerank keep_order (fixed_scores [Finite 1, Finite 3, Finite 2]) request_abc ()) =
     Inr \<lparr>results = [\<lparr>res_id = ''b'', res_score = Finite 3\<rparr>,
                     \<lparr>res_id = ''c'', res_score = Finite 2\<rparr>,
                     \<lparr>res_id = ''a'', res_score = Finite 1\<rparr>]\<rparr>
   \<and> NaN \<notin> set (map res_score [\<lparr>res_id = ''b'', res_score = Finite 3\<rparr>,
                                 \<lparr>res_id = ''c'', res_score = Finite 2\<rparr>,
                                 \<lparr>res_id = ''a'', res_score = Finite 1\<rparr>])
   \<and> py_ge (Finite 3) (Finite 2)"
proof -
  let ?resp = "\<lparr>results = [\<lparr>res_id = ''b'', res_score = Finite 3\<rparr>,
                            \<lparr>res_id = ''c'', res_score = Finite 2\<rparr>,
                            \<lparr>res_id = ''a'', res_score = Finite 1\<rparr>]\<rparr>"
  have run: "fst (rerank keep_order (fixed_scores [Finite 1, Finite 3, Finite 2]) request_abc ())
             = Inr ?resp"
    by (simp add: rerank_def fixed_scores_def request_abc_def sample_documents sort_reverse_total)
  have clean: "NaN \<notin> set (map res_score (results ?resp))" by simp
  have len: "Suc 0 < length (results ?resp)" by simp
  from rerank_sorted_descending [OF run clean len] run clean show ?thesis by simp
qed

text \<open>
  Claim C3 as it is stated fails: three documents scored 1, not-a-number and 2 are returned
  in their input order, and neither is 1 greater than or equal to not-a-number, nor
  not-a-number to 2.
\<close>

theorem rerank_sorted_descending_counterexample:
  "fst (rerank keep_order (fixed_scores [Finite 1, NaN, Finite 2]) request_abc ()) =
     Inr \<lparr>results = [\<lparr>res_id = ''a'', res_score = Finite 1\<rparr>,
                     \<lparr>res_id = ''b'', res_score = NaN\<rparr>,
                     \<lparr>res_id = ''c'', res_score = Finite 2\<rparr>]\<rparr>
   \<and> \<not> py_ge (Finite 1) NaN \<and> \<not> py_ge NaN (Finite 2)"
  by (simp add: rerank_def fixed_scores_def request_abc_def sample_documents sort_reverse_def
      short_sort_def count_run_def py_lt_def py_ge_def binarysort_def)

subsection \<open>Stability\<close>

text \<open>
  Claim C4, as the code has it. Let the model return scores, none of those paired with a
  document being not-a-number, and let the documents at positions \<open>i < j\<close> both receive
  a score, the same one. Then the entry of document \<open>i\<close> occurs before the entry of
  document \<open>j\<close> in the results. More generally the results that carry this score are,
  in this order, the entries of the documents that received it, in input order.
\<close>

theorem rerank_stable:
  assumes "predict (pairs_of req) m = (Inr scores, m')"
    and "NaN \<notin> set (take (length (documents req)) scores)"
    and "i < j" and "j < length (documents req)" and "j < length scores"
    and "scores ! i = scores ! j"
  shows "\<exists>resp. fst (rerank order predict req m) = Inr resp
           \<and> subseq [\<lparr>res_id = doc_id (documents req ! i), res_score = scores ! i\<rparr>,
                      \<lparr>res_id = doc_id (documents req ! j), res_score = scores ! j\<rparr>]
                     (results resp)
           \<and> filter (\<lambda>r. res_score r = scores ! i) (results resp)
               = map entry (filter (\<lambda>(doc, score). score = scores ! i)
                              (zip (documents req) scores))"
proof -
  let ?es = "map entry (zip (documents req) scores)"
  let ?rs = "sort_reverse order res_score ?es"
  let ?P = "\<lambda>r. res_score r = scores ! i"
  let ?x = "\<lparr>res_id = doc_id (documents req ! i), res_score = scores ! i\<rparr>"
  let ?y = "\<lparr>res_id = doc_id (documents req ! j), res_score = scores ! j\<rparr>"
  have clean: "NaN \<notin> set (map res_score ?es)"
    using assms(2) by (simp only: scores_of_entries not_False_eq_True)
  have len: "j < length ?es" using assms(4,5) by simp
  have xi: "?es ! i = ?x" using assms(3) len by simp
  have yj: "?es ! j = ?y" using len by simp
  have keep: "filter ?P ?rs = filter ?P ?es"
    using clean by (rule sort_reverse_filter)
  have "subseq [?es ! i, ?es ! j] ?es"
    using assms(3) len by (rule subseq_pair_nth)
  then have "subseq (filter ?P [?x, ?y]) (filter ?P ?es)"
    unfolding xi yj by (rule subseq_filter)
  moreover have "filter ?P [?x, ?y] = [?x, ?y]"
    using assms(6) by simp
  ultimately have "subseq [?x, ?y] (filter ?P ?rs)"
    by (simp only: keep)
  then have order: "subseq [?x, ?y] ?rs" by (rule subseq_pair_filter)
  have "filter ?P ?es
        = map entry (filter (\<lambda>(doc, score). score = scores ! i) (zip (documents req) scores))"
    by (simp add: filter_map comp_def case_prod_unfold)
  with keep have same: "filter ?P ?rs
        = map entry (filter (\<lambda>(doc, score). score = scores ! i) (zip (documents req) scores))"
    by simp
  from order same show ?thesis
    using assms(1) by (simp add: rerank_returns)
qed

text \<open>The theorem at three documents scored 2, 5 and 2: \<open>a\<close> stays before \<open>c\<close>.\<close>

theorem rerank_stable_witness:
  "fixed_scores [Finite 2, Finite 5, Finite 2] (pairs_of request_abc) ()
     = (Inr [Finite 2, Finite 5, Finite 2], ())
   \<and> NaN \<notin> set (take (length (documents request_abc)) [Finite 2, Finite 5, Finite 2])
   \<and> (0::nat) < 2 \<and> 2 < length (documents request_abc)
   \<and> 2 < length [Finite 2, Finite 5, Finite 2]
   \<and> [Finite 2, Finite 5, Finite 2] ! 0 = [Finite 2, Finite 5, Finite 2] ! 2
   \<and> fst (rerank keep_order (fixed_scores [Finite 2, Finite 5, Finite 2]) request_abc ())
       = Inr \<lparr>results = [\<lparr>res_id = ''b'', res_score = Finite 5\<rparr>,
                         \<lparr>res_id = ''a'', res_score = Finite 2\<rparr>,
                         \<lparr>res_id = ''c'', res_score = Finite 2\<rparr>]\<rparr>
   \<and> subseq [\<lparr>res_id = ''a'', res_score = Finite 2\<rparr>, \<lparr>res_id = ''c'', res_score = Finite 2\<rparr>]
        [\<lparr>res_id = ''b'', res_score = Finite 5\<rparr>, \<lparr>res_id = ''a'', res_score = Finite 2\<rparr>,
         \<lparr>res_id = ''c'', res_score = Finite 2\<rparr>]"
proof -
  have p: "fixed_scores [Finite 2, Finite 5, Finite 2] (pairs_of request_abc) ()
     = (Inr [Finite 2, Finite 5, Finite 2], ())"
    by (simp add: fixed_scores_def)
  have c: "NaN \<notin> set (take (length (documents request_abc)) [Finite 2, Finite 5, Finite 2])"
    by (simp add: request_abc_def)
  have o: "(0::nat) < 2" by simp
  have d: "2 < length (documents request_abc)" by (simp add: request_abc_def)
  have s: "2 < length [Finite 2, Finite 5, Finite 2]" by simp
  have e: "[Finite 2, Finite 5, Finite 2] ! 0 = [Finite 2, Finite 5, Finite 2] ! 2" by simp
  have run: "fst (rerank keep_order (fixed_scores [Finite 2, Finite 5, Finite 2]) request_abc ())
       = Inr \<lparr>results = [\<lparr>res_id = ''b'', res_score = Finite 5\<rparr>,
                         \<lparr>res_id = ''a'', res_score = Finite 2\<rparr>,
                         \<lparr>res_id = ''c'', res_score = Finite 2\<rparr>]\<rparr>"
    by (simp add: rerank_def fixed_scores_def request_abc_def sample_documents sort_reverse_total)
  from rerank_stable
    [of "fixed_scores [Finite 2, Finite 5, Finite 2]" request_abc "()"
        "[Finite 2, Finite 5, Finite 2]" "()" 0 2 keep_order, OF p c o d s e]
    run p c o d s e
  show ?thesis
    by (simp add: request_abc_def sample_documents)
qed

text \<open>
  Claim C4 as it is stated fails. Seven documents are scored 1, 1, not-a-number, 1, 1, 1
  and 2. The sort reverses the entries, takes \<open>g, f\<close> as a descending run, which it
  reverses, and inserts \<open>e\<close>, \<open>d\<close>, \<open>c\<close>, \<open>b\<close> and \<open>a\<close> by binary search. The
  searches that compare with the score of \<open>c\<close> go wrong, and the documents \<open>a\<close> and
  \<open>b\<close>, both scored 1, are returned with \<open>b\<close> first.
\<close>

theorem rerank_stable_counterexample:
  "[Finite 1, Finite 1, NaN, Finite 1, Finite 1, Finite 1, Finite 2] ! 0
     = [Finite 1, Finite 1, NaN, Finite 1, Finite 1, Finite 1, Finite 2] ! 1
   \<and> fst (rerank keep_order
            (fixed_scores [Finite 1, Finite 1, NaN, Finite 1, Finite 1, Finite 1, Finite 2])
            request_abcdefg ())
       = Inr \<lparr>results = [\<lparr>res_id = ''b'', res_score = Finite 1\<rparr>,
                         \<lparr>res_id = ''c'', res_score = NaN\<rparr>,
                         \<lparr>res_id = ''g'', res_score = Finite 2\<rparr>,
                         \<lparr>res_id = ''a'', res_score = Finite 1\<rparr>,
                         \<lparr>res_id = ''d'', res_score = Finite 1\<rparr>,
                         \<lparr>res_id = ''e'', res_score = Finite 1\<rparr>,
                         \<lparr>res_id = ''f'', res_score = Finite 1\<rparr>]\<rparr>
   \<and> \<not> subseq [\<lparr>res_id = ''a'', res_score = Finite 1\<rparr>, \<lparr>res_id = ''b'', res_score = Finite 1\<rparr>]
          [\<lparr>res_id = ''b'', res_score = Finite 1\<rparr>,
           \<lparr>res_id = ''c'', res_score = NaN\<rparr>,
           \<lparr>res_id = ''g'', res_score = Finite 2\<rparr>,
           \<lparr>res_id = ''a'', res_score = Finite 1\<rparr>,
           \<lparr>res_id = ''d'', res_score = Finite 1\<rparr>,
           \<lparr>res_id = ''e'', res_score = Finite 1\<rparr>,
           \<lparr>res_id = ''f'', res_score = Finite 1\<rparr>]"
proof -
  let ?a = "\<lparr>res_id = ''a'', res_score = Finite 1\<rparr>"
  let ?b = "\<lparr>res_id = ''b'', res_score = Finite 1\<rparr>"
  let ?c = "\<lparr>res_id = ''c'', res_score = NaN\<rparr>"
  let ?d = "\<lparr>res_id = ''d'', res_score = Finite 1\<rparr>"
  let ?e = "\<lparr>res_id = ''e'', res_score = Finite 1\<rparr>"
  let ?f = "\<lparr>res_id = ''f'', res_score = Finite 1\<rparr>"
  let ?g = "\<lparr>res_id = ''g'', res_score = Finite 2\<rparr>"
  note search = binary_insert_def bisect_done bisect_left bisect_right py_lt_def
  have run: "count_run [Finite 2, Finite 1, Finite 1, Finite 1, NaN, Finite 1, Finite 1]
             = (2, True)"
    by (simp add: count_run_def py_lt_def)
  have i1: "binary_insert res_score [?f, ?g] ?e = [?f, ?e, ?g]"
    by (simp add: search)
  have i2: "binary_insert res_score [?f, ?e, ?g] ?d = [?f, ?e, ?d, ?g]"
    by (simp add: search)
  have i3: "binary_insert res_score [?f, ?e, ?d, ?g] ?c = [?f, ?e, ?d, ?g, ?c]"
    by (simp add: search)
  have i4: "binary_insert res_score [?f, ?e, ?d, ?g, ?c] ?b = [?f, ?e, ?d, ?g, ?c, ?b]"
    by (simp add: search)
  have i5: "binary_insert res_score [?f, ?e, ?d, ?g, ?c, ?b] ?a = [?f, ?e, ?d, ?a, ?g, ?c, ?b]"
    by (simp add: search)
  have "binarysort res_score [?f, ?g] [?e, ?d, ?c, ?b, ?a] = [?f, ?e, ?d, ?a, ?g, ?c, ?b]"
    by (simp add: binarysort_def i1 i2 i3 i4 i5)
  then have short:
    "short_sort res_score [?g, ?f, ?e, ?d, ?c, ?b, ?a] = [?f, ?e, ?d, ?a, ?g, ?c, ?b]"
    by (simp add: short_sort_def run)
  have "sort_reverse keep_order res_score [?a, ?b, ?c, ?d, ?e, ?f, ?g]
        = rev (short_sort res_score (rev [?a, ?b, ?c, ?d, ?e, ?f, ?g]))"
    by (simp add: sort_reverse_def)
  also have "\<dots> = [?b, ?c, ?g, ?a, ?d, ?e, ?f]"
    by (simp add: short)
  finally have outcome:
    "fst (rerank keep_order
            (fixed_scores [Finite 1, Finite 1, NaN, Finite 1, Finite 1, Finite 1, Finite 2])
            request_abcdefg ())
     = Inr \<lparr>results = [?b, ?c, ?g, ?a, ?d, ?e, ?f]\<rparr>"
    by (simp add: rerank_def fixed_scores_def request_abcdefg_def sample_documents)
  have swapped: "\<not> subseq [?a, ?b] [?b, ?c, ?g, ?a, ?d, ?e, ?f]"
    by simp
  from outcome swapped show ?thesis by simp
qed

subsection \<open>Number of results\<close>

text \<open>
  Claim C5. When the model returns one score for each document, \<^verbatim>\<open>rerank\<close> returns a
  response with as many results as the request has documents.
\<close>

theorem rerank_length:
  assumes "predict (pairs_of req) m = (Inr scores, m')"
    and "length scores = length (documents req)"
  shows "\<exists>resp. fst (rerank order predict req m) = Inr resp
           \<and> length (results resp) = length (documents req)"
  using assms by (simp add: rerank_returns sort_reverse_length)

text \<open>
  The theorem at three documents and three scores.
\<close>

theorem rerank_length_witness:
  "fixed_scores [Finite 1, Finite 8, Finite 4] (pairs_of request_abc) () = (Inr [Finite 1, Finite 8, Finite 4], ())
   \<and> length [Finite 1, Finite 8, Finite 4] = length (documents request_abc)
   \<and> fst (rerank keep_order (fixed_scores [Finite 1, Finite 8, Finite 4]) request_abc ())
       = Inr \<lparr>results = [\<lparr>res_id = ''b'', res_score = Finite 8\<rparr>, \<lparr>res_id = ''c'', res_score = Finite 4\<rparr>,
                         \<lparr>res_id = ''a'', res_score = Finite 1\<rparr>]\<rparr>
   \<and> (\<exists>resp. fst (rerank keep_order (fixed_scores [Finite 1, Finite 8, Finite 4]) request_abc ()) = Inr resp
           \<and> length (results resp) = length (documents request_abc))"
proof -
  have p: "fixed_scores [Finite 1, Finite 8, Finite 4] (pairs_of request_abc) () = (Inr [Finite 1, Finite 8, Finite 4], ())"
    by (simp add: fixed_scores_def)
  have n: "length [Finite 1, Finite 8, Finite 4] = length (documents request_abc)"
    by (simp add: request_abc_def)
  have run: "fst (rerank keep_order (fixed_scores [Finite 1, Finite 8, Finite 4]) request_abc ())
       = Inr \<lparr>results = [\<lparr>res_id = ''b'', res_score = Finite 8\<rparr>, \<lparr>res_id = ''c'', res_score = Finite 4\<rparr>,
                         \<lparr>res_id = ''a'', res_score = Finite 1\<rparr>]\<rparr>"
    by (simp add: rerank_def fixed_scores_def request_abc_def sample_documents
        sort_reverse_total)
  from rerank_length
    [of "fixed_scores [Finite 1, Finite 8, Finite 4]" request_abc "()"
        "[Finite 1, Finite 8, Finite 4]" "()" keep_order, OF p n]
    p n run
  show ?thesis by blast
qed

subsection \<open>The identifiers of the results\<close>




subsection \<open>Failure of the scoring call\<close>

text \<open>
  Claim C7. When the call of the model raises, \<^verbatim>\<open>rerank\<close> fails with that very
  error and returns no response; the model has been called once, and is left in the state
  in which that call left it.
\<close>

theorem rerank_scoring_failure:
  assumes "predict (pairs_of req) m = (Inl (ScoringError c), m')"
  shows "rerank order (logged predict) req (m, calls)
         = (Inl (ScoringError c), (m', calls @ [pairs_of req]))"
  using assms by (simp add: rerank_logged rerank_raises)

text \<open>
  The theorem at a model that raises on every call.
\<close>

theorem rerank_scoring_failure_witness:
  "failing ''CUDA out of memory'' (pairs_of request_ab) ()
     = (Inl (ScoringError ''CUDA out of memory''), ())
   \<and> rerank keep_order (logged (failing ''CUDA out of memory'')) request_ab ((), [])
       = (Inl (ScoringError ''CUDA out of memory''),
          ((), [[(''budget meeting'', ''weather forecast for tomorrow''),
                 (''budget meeting'', ''Q3 budget review meeting notes'')]]))"
proof -
  have f: "failing ''CUDA out of memory'' (pairs_of request_ab) ()
     = (Inl (ScoringError ''CUDA out of memory''), ())"
    by (simp add: failing_def)
  from rerank_scoring_failure
    [of "failing ''CUDA out of memory''" request_ab "()" "''CUDA out of memory''" "()" keep_order
        "[]", OF f] f
  show ?thesis
    by (simp add: request_ab_def sample_documents)
qed

subsection \<open>One call, with all the texts\<close>

text \<open>
  Claim C8. On every request \<^verbatim>\<open>rerank\<close> calls the model exactly once. Every pair of that
  call has the query of the request as its first component, and the second components are
  the texts of the documents, in input order. When the call returns scores, the results
  are, up to their order, the identifiers of the documents paired by position with the
  scores.
\<close>

theorem rerank_single_batch_call:
  "(\<exists>call. snd (snd (rerank order (logged predict) req (m, calls))) = calls @ [call]
      \<and> map fst call = replicate (length (documents req)) (query req)
      \<and> map snd call = map doc_text (documents req)
      \<and> (predict call m = (Inr scores, m') \<longrightarrow>
           (\<exists>resp. fst (rerank order (logged predict) req (m, calls)) = Inr resp
              \<and> mset (results resp)
                  = mset (map2 (\<lambda>doc score. \<lparr>res_id = doc_id doc, res_score = score\<rparr>)
                           (documents req) scores))))"
proof -
  have "map fst (pairs_of req) = replicate (length (documents req)) (query req)"
    by (simp add: comp_def map_replicate_const)
  moreover have "map snd (pairs_of req) = map doc_text (documents req)"
    by (simp add: comp_def)
  moreover have "predict (pairs_of req) m = (Inr scores, m') \<longrightarrow>
           (\<exists>resp. fst (rerank order (logged predict) req (m, calls)) = Inr resp
              \<and> mset (results resp) = mset (map entry (zip (documents req) scores)))"
    by (simp add: rerank_logged rerank_returns sort_reverse_mset)
  moreover have "snd (snd (rerank order (logged predict) req (m, calls))) = calls @ [pairs_of req]"
    by (simp add: rerank_logged)
  ultimately show ?thesis by blast
qed

text \<open>
  The theorem at two documents and two scores.
\<close>

theorem rerank_single_batch_call_witness:
  "snd (snd (rerank keep_order (logged (fixed_scores [Finite 3, Finite 7])) request_ab ((), [])))
     = [[(''budget meeting'', ''weather forecast for tomorrow''),
         (''budget meeting'', ''Q3 budget review meeting notes'')]]
   \<and> fixed_scores [Finite 3, Finite 7] (pairs_of request_ab) () = (Inr [Finite 3, Finite 7], ())
   \<and> (\<exists>call. snd (snd (rerank keep_order (logged (fixed_scores [Finite 3, Finite 7])) request_ab ((), []))) = [] @ [call]
      \<and> map fst call = replicate (length (documents request_ab)) (query request_ab)
      \<and> map snd call = map doc_text (documents request_ab)
      \<and> (\<exists>resp. fst (rerank keep_order (logged (fixed_scores [Finite 3, Finite 7])) request_ab ((), [])) = Inr resp
              \<and> mset (results resp)
                  = {#\<lparr>res_id = ''a'', res_score = Finite 3\<rparr>, \<lparr>res_id = ''b'', res_score = Finite 7\<rparr>#}))"
proof -
  have p: "fixed_scores [Finite 3, Finite 7] ps () = (Inr [Finite 3, Finite 7], ())" for ps
    by (simp add: fixed_scores_def)
  have l: "snd (snd (rerank keep_order (logged (fixed_scores [Finite 3, Finite 7])) request_ab ((), [])))
     = [[(''budget meeting'', ''weather forecast for tomorrow''),
         (''budget meeting'', ''Q3 budget review meeting notes'')]]"
    by (simp add: rerank_def logged_def fixed_scores_def request_ab_def sample_documents)
  have e: "mset (map2 (\<lambda>doc score. \<lparr>res_id = doc_id doc, res_score = score\<rparr>)
                           (documents request_ab) [Finite 3, Finite 7])
           = {#\<lparr>res_id = ''a'', res_score = Finite 3\<rparr>, \<lparr>res_id = ''b'', res_score = Finite 7\<rparr>#}"
    by (simp add: request_ab_def sample_documents)
  from rerank_single_batch_call
    [of keep_order "fixed_scores [Finite 3, Finite 7]" request_ab "()" "[]" "[Finite 3, Finite 7]" "()"]
  show ?thesis unfolding p e using l p by simp
qed

subsection \<open>Determinism\<close>

text \<open>
  Claim C9. Let the outcome of a call of the model depend on the pairs only, not on the
  state of the model. Then a second call of \<^verbatim>\<open>rerank\<close> on the same request, made in
  the state the first call left the model in, has the outcome of the first call.
\<close>

theorem rerank_deterministic:
  assumes "\<And>pairs m1 m2. fst (predict pairs m1) = fst (predict pairs m2)"
  shows "fst (rerank order predict req (snd (rerank order predict req m))) = fst (rerank order predict req m)"
proof -
  have "fst (rerank order predict req m1) = fst (rerank order predict req m2)" for m1 m2
  proof -
    have "fst (rerank order predict req s)
          = (case fst (predict (pairs_of req) s) of
               Inl e \<Rightarrow> Inl e
             | Inr scores \<Rightarrow>
                 Inr \<lparr>results = sort_reverse order res_score (map entry (zip (documents req) scores))\<rparr>)"
      for s
      by (simp add: rerank_def split: prod.splits sum.splits)
    then show ?thesis
      using assms [of "pairs_of req" m1 m2] by simp
  qed
  then show ?thesis .
qed

text \<open>
  The theorem at the model that scores by the length of the text and counts its calls.
\<close>

theorem rerank_deterministic_witness:
  "(\<forall>pairs m1 m2. fst (length_scorer pairs m1) = fst (length_scorer pairs m2))
   \<and> snd (rerank keep_order length_scorer request_ab 0) = 1
   \<and> fst (rerank keep_order length_scorer request_ab 0)
       = Inr \<lparr>results = [\<lparr>res_id = ''b'', res_score = Finite 30\<rparr>, \<lparr>res_id = ''a'', res_score = Finite 29\<rparr>]\<rparr>
   \<and> fst (rerank keep_order length_scorer request_ab (snd (rerank keep_order length_scorer request_ab 0)))
       = Inr \<lparr>results = [\<lparr>res_id = ''b'', res_score = Finite 30\<rparr>, \<lparr>res_id = ''a'', res_score = Finite 29\<rparr>]\<rparr>"
proof -
  have d: "fst (length_scorer pairs m1) = fst (length_scorer pairs m2)" for pairs m1 m2
    by (simp add: length_scorer_def)
  have s: "snd (rerank keep_order length_scorer request_ab 0) = 1"
    by (simp add: rerank_def length_scorer_def)
  have run: "fst (rerank keep_order length_scorer request_ab 0)
       = Inr \<lparr>results = [\<lparr>res_id = ''b'', res_score = Finite 30\<rparr>, \<lparr>res_id = ''a'', res_score = Finite 29\<rparr>]\<rparr>"
    by (simp add: rerank_def length_scorer_def request_ab_def sample_documents sort_reverse_total)
  from rerank_deterministic [of length_scorer keep_order request_ab 0, OF d] d s run
  show ?thesis by simp
qed

subsection \<open>Independence of metadata and earlier scores\<close>

text \<open>
  Claim C10. Two requests with the same query, whose documents have the same identifiers
  and the same texts in the same order, have the same outcome and leave the model in the
  same state, whatever the metadata and the earlier scores of their documents are.
\<close>

theorem rerank_ignores_metadata_and_score:
  assumes "query r1 = query r2"
    and "map doc_id (documents r1) = map doc_id (documents r2)"
    and "map doc_text (documents r1) = map doc_text (documents r2)"
  shows "rerank order predict r1 m = rerank order predict r2 m"
proof -
  have p: "pairs_of r1 = pairs_of r2"
  proof -
    have "pairs_of r1 = map (Pair (query r1)) (map doc_text (documents r1))" by (simp add: comp_def)
    also have "\<dots> = map (Pair (query r2)) (map doc_text (documents r2))"
      using assms(1,3) by simp
    also have "\<dots> = pairs_of r2" by (simp add: comp_def)
    finally show ?thesis .
  qed
  have e: "map entry (zip (documents r1) scores) = map entry (zip (documents r2) scores)" for scores
    by (simp only: entry_zip_ids assms(2))
  show ?thesis
    by (simp add: rerank_def p e split: prod.splits sum.splits)
qed

text \<open>
  The theorem at two requests that differ in the metadata and the earlier score of their
  first document.
\<close>

theorem rerank_ignores_metadata_and_score_witness:
  "query request_ab = query request_ab_annotated
   \<and> map doc_id (documents request_ab) = map doc_id (documents request_ab_annotated)
   \<and> map doc_text (documents request_ab) = map doc_text (documents request_ab_annotated)
   \<and> documents request_ab \<noteq> documents request_ab_annotated
   \<and> rerank keep_order length_scorer request_ab 0 = rerank keep_order length_scorer request_ab_annotated 0"
proof -
  have q: "query request_ab = query request_ab_annotated"
    by (simp add: request_ab_def request_ab_annotated_def)
  have i: "map doc_id (documents request_ab) = map doc_id (documents request_ab_annotated)"
    by (simp add: request_ab_def request_ab_annotated_def sample_documents)
  have t: "map doc_text (documents request_ab) = map doc_text (documents request_ab_annotated)"
    by (simp add: request_ab_def request_ab_annotated_def sample_documents)
  have n: "documents request_ab \<noteq> documents request_ab_annotated"
    by (simp add: request_ab_def request_ab_annotated_def sample_documents)
  from rerank_ignores_metadata_and_score [OF q i t, of keep_order length_scorer 0] q i t n
  show ?thesis by simp
qed

end
